theory Spec2Isabelle
  imports Main
begin

section \<open>The Davis-Putnam procedure of \<^verbatim>\<open>main(2).py\<close>\<close>

subsection \<open>Literals, clauses, formulas\<close>

text \<open>
  A Python \<^verbatim>\<open>str\<close> is a finite sequence of Unicode code points, and the source looks at
  a literal only through \<^verbatim>\<open>startswith\<close>, the slice \<^verbatim>\<open>[1:]\<close>, concatenation and equality.
  A string is therefore a list of code points, each a natural number, so that the
  negation mark (U+00AC, one code point) is one element of the list. A clause is a
  \<^verbatim>\<open>frozenset\<close> of literals and a formula a \<^verbatim>\<open>set\<close> of clauses: both are sets,
  unordered and without duplicates.
\<close>

type_synonym str = "nat list"
type_synonym clause = "str set"
type_synonym cnf = "clause set"

text \<open>The code point of the negation mark, U+00AC.\<close>

abbreviation neg_mark :: nat where
  "neg_mark \<equiv> 172"

text \<open>The text of an ASCII string literal of the source, as code points.\<close>

abbreviation py :: "string \<Rightarrow> str" where
  "py s \<equiv> map of_char s"

text \<open>\<^verbatim>\<open>literal.startswith(mark)\<close>: false on the empty string.\<close>

fun startswith_neg :: "str \<Rightarrow> bool" where
  "startswith_neg [] = False"
| "startswith_neg (c # cs) = (c = neg_mark)"

text \<open>
  \<^verbatim>\<open>def negate(literal): return literal[1:] if literal.startswith(mark) else mark + literal\<close>
\<close>

definition negate :: "str \<Rightarrow> str" where
  "negate literal = (if startswith_neg literal then tl literal else neg_mark # literal)"

text \<open>
  \<^verbatim>\<open>find_pure_literals\<close>: the two loops collect the unmarked literals, and the marked
  ones with their mark sliced off; the result is built from the two differences.
\<close>

definition find_pure_literals :: "cnf \<Rightarrow> str set" where
  "find_pure_literals cnf =
     (let literals = {literal \<in> \<Union> cnf. \<not> startswith_neg literal};
          negations = tl ` {literal \<in> \<Union> cnf. startswith_neg literal}
      in (literals - negations) \<union> ((\<lambda>l. neg_mark # l) ` (negations - literals)))"

text \<open>
  \<^verbatim>\<open>unit_propagate\<close>: a clause that meets the unit literals is skipped; any other clause
  is added without the literals whose negation is a unit literal.
\<close>

definition unit_propagate :: "cnf \<Rightarrow> str set \<Rightarrow> cnf" where
  "unit_propagate cnf unit_literals =
     (\<lambda>clause. {lit \<in> clause. negate lit \<notin> unit_literals}) `
        {clause \<in> cnf. clause \<inter> unit_literals = {}}"

text \<open>
  \<^verbatim>\<open>resolve_literal\<close>: \<^verbatim>\<open>{frozenset(clause - {literal}) for clause in cnf if literal in clause}\<close>
\<close>

definition resolve_literal :: "cnf \<Rightarrow> str \<Rightarrow> cnf" where
  "resolve_literal cnf literal = (\<lambda>clause. clause - {literal}) ` {clause \<in> cnf. literal \<in> clause}"

subsection \<open>The decision loop\<close>

text \<open>
  Line 23, \<^verbatim>\<open>{next(iter(clause)) for clause in cnf if len(clause) == 1}\<close>: the sole
  literal of every clause of size one.
\<close>

definition unit_clauses :: "cnf \<Rightarrow> str set" where
  "unit_clauses cnf = the_elem ` {clause \<in> cnf. card clause = 1}"

text \<open>
  Line 18, the clauses that contain no pure literal.
\<close>

definition remove_pure :: "cnf \<Rightarrow> str set \<Rightarrow> cnf" where
  "remove_pure cnf pure_literals = {clause \<in> cnf. \<forall>lit \<in> pure_literals. lit \<notin> clause}"

text \<open>
  Lines 39 to 41: \<^verbatim>\<open>pos | neg\<close> for the chosen literal.
\<close>

definition eliminate :: "cnf \<Rightarrow> str \<Rightarrow> cnf" where
  "eliminate cnf lit = resolve_literal cnf lit \<union> resolve_literal cnf (negate lit)"

text \<open>
  One pass through the body of \<^verbatim>\<open>while True\<close> after the step check (lines 15 to 42):
  it either returns a verdict or replaces the formula, in which case the caller adds
  one to \<^verbatim>\<open>steps\<close>.

  Line 38 takes the first literal of the first clause in the iteration order of Python's
  hash sets, an order that the values of the sets do not determine. The choice is the
  parameter \<open>pick\<close>; what line 38 guarantees is only that the literal chosen belongs to
  some clause of the formula (\<open>picks_from\<close>), and the line is reached only when the
  formula has a clause and no empty clause.
\<close>

datatype outcome = Return bool | Continue cnf

definition iteration :: "(cnf \<Rightarrow> str) \<Rightarrow> cnf \<Rightarrow> outcome" where
  "iteration pick cnf =
     (let pure_literals = find_pure_literals cnf in
      if pure_literals \<noteq> {} then Continue (remove_pure cnf pure_literals)
      else
        let unit_literals = unit_clauses cnf in
        if unit_literals \<noteq> {} then Continue (unit_propagate cnf unit_literals)
        else if {} \<in> cnf then Return False
        else if cnf = {} then Return True
        else Continue (eliminate cnf (pick cnf)))"

definition picks_from :: "(cnf \<Rightarrow> str) \<Rightarrow> cnf \<Rightarrow> bool" where
  "picks_from pick cnf \<longleftrightarrow> (\<exists>clause \<in> cnf. pick cnf \<in> clause)"

text \<open>
  The loop, with the counter \<^verbatim>\<open>steps\<close> as explicit state. The result is the value
  returned (\<open>None\<close> for Python's \<^verbatim>\<open>None\<close>, the step limit; \<open>Some True\<close> satisfiable;
  \<open>Some False\<close> unsatisfiable) together with the final value of \<^verbatim>\<open>steps\<close>, the number
  of times the formula was replaced.
\<close>

function loop :: "(cnf \<Rightarrow> str) \<Rightarrow> cnf \<Rightarrow> int \<Rightarrow> int \<Rightarrow> bool option \<times> int" where
  "loop pick cnf steps max_steps =
     (if steps \<ge> max_steps then (None, steps)
      else case iteration pick cnf of
             Return verdict \<Rightarrow> (Some verdict, steps)
           | Continue cnf' \<Rightarrow> loop pick cnf' (steps + 1) max_steps)"
  by pat_completeness auto
termination
  by (relation "measure (\<lambda>(pick, cnf, steps, max_steps). nat (max_steps - steps))") auto

declare loop.simps [simp del]

definition davis_putnam :: "(cnf \<Rightarrow> str) \<Rightarrow> cnf \<Rightarrow> int \<Rightarrow> bool option" where
  "davis_putnam pick cnf max_steps = fst (loop pick cnf 0 max_steps)"

definition MAX_STEPS :: int where
  "MAX_STEPS = 10000"

text \<open>
  The formula held by \<^verbatim>\<open>cnf\<close> each time the loop reaches line 10, in order: the
  same recursion as \<open>loop\<close>, recording the formula instead of the verdict.
\<close>

function formulas :: "(cnf \<Rightarrow> str) \<Rightarrow> cnf \<Rightarrow> int \<Rightarrow> int \<Rightarrow> cnf list" where
  "formulas pick cnf steps max_steps =
     cnf # (if steps \<ge> max_steps then []
            else case iteration pick cnf of
                   Return verdict \<Rightarrow> []
                 | Continue cnf' \<Rightarrow> formulas pick cnf' (steps + 1) max_steps)"
  by pat_completeness auto
termination
  by (relation "measure (\<lambda>(pick, cnf, steps, max_steps). nat (max_steps - steps))") auto

declare formulas.simps [simp del]

text \<open>
  The conditions under which an iteration reaches line 38: no pure literal, no unit
  clause, no empty clause, and a formula that is not empty.
\<close>

definition elimination_runs :: "cnf \<Rightarrow> bool" where
  "elimination_runs cnf \<longleftrightarrow>
     find_pure_literals cnf = {} \<and> unit_clauses cnf = {} \<and> {} \<notin> cnf \<and> cnf \<noteq> {}"

subsection \<open>Reading a literal\<close>

text \<open>
  The source has no literal type: lines 49 to 52 and \<^verbatim>\<open>negate\<close> read a string as negated
  when it starts with the mark, and take the rest of it as the identifier.
\<close>

definition negated :: "str \<Rightarrow> bool" where
  "negated literal = startswith_neg literal"

definition ident :: "str \<Rightarrow> str" where
  "ident literal = (if startswith_neg literal then tl literal else literal)"

text \<open>
  A literal is well formed when it is an identifier with at most one mark in front, that
  is, when its identifier does not start with the mark itself.
\<close>

definition well_formed :: "str \<Rightarrow> bool" where
  "well_formed literal \<longleftrightarrow> \<not> startswith_neg (ident literal)"

definition well_formed_cnf :: "cnf \<Rightarrow> bool" where
  "well_formed_cnf cnf \<longleftrightarrow> (\<forall>clause \<in> cnf. \<forall>literal \<in> clause. well_formed literal)"

subsection \<open>Truth assignments\<close>

text \<open>
  An assignment gives every identifier a truth value. A literal holds when its identifier
  has the value its polarity asks for, a clause when one of its literals holds, a formula
  when all of its clauses hold.
\<close>

type_synonym assignment = "str \<Rightarrow> bool"

definition lit_true :: "assignment \<Rightarrow> str \<Rightarrow> bool" where
  "lit_true \<sigma> literal = (if negated literal then \<not> \<sigma> (ident literal) else \<sigma> (ident literal))"

definition clause_true :: "assignment \<Rightarrow> clause \<Rightarrow> bool" where
  "clause_true \<sigma> clause \<longleftrightarrow> (\<exists>literal \<in> clause. lit_true \<sigma> literal)"

definition cnf_true :: "assignment \<Rightarrow> cnf \<Rightarrow> bool" where
  "cnf_true \<sigma> cnf \<longleftrightarrow> (\<forall>clause \<in> cnf. clause_true \<sigma> clause)"

text \<open>Every literal of a set of unit literals holds.\<close>

definition units_true :: "assignment \<Rightarrow> str set \<Rightarrow> bool" where
  "units_true \<sigma> unit_literals \<longleftrightarrow> (\<forall>literal \<in> unit_literals. lit_true \<sigma> literal)"

subsection \<open>Measures of a formula\<close>

definition clause_count :: "cnf \<Rightarrow> nat" where
  "clause_count cnf = card cnf"

definition literal_occurrences :: "cnf \<Rightarrow> nat" where
  "literal_occurrences cnf = (\<Sum>clause \<in> cnf. card clause)"

subsection \<open>Finiteness and tautologies\<close>

text \<open>
  A Python set is finite: a formula of the source is a finite set of finite clauses.
\<close>

definition finite_cnf :: "cnf \<Rightarrow> bool" where
  "finite_cnf cnf \<longleftrightarrow> finite cnf \<and> (\<forall>clause \<in> cnf. finite clause)"

text \<open>
  No clause holds both the literal and its negation. The source never looks for such
  clauses; some properties of lines 39 to 41 depend on their absence.
\<close>

definition no_tautology_on :: "cnf \<Rightarrow> str \<Rightarrow> bool" where
  "no_tautology_on cnf lit \<longleftrightarrow> (\<forall>clause \<in> cnf. \<not> (lit \<in> clause \<and> negate lit \<in> clause))"


section \<open>Properties\<close>

subsection \<open>Negation\<close>

lemma startswith_neg_iff: "startswith_neg l \<longleftrightarrow> (\<exists>x. l = neg_mark # x)"
  by (cases l) auto

lemma negate_marked [simp]: "negate (neg_mark # x) = x"
  by (simp add: negate_def)

lemma negate_unmarked: "\<not> startswith_neg l \<Longrightarrow> negate l = neg_mark # l"
  by (simp add: negate_def)

lemma negate_neq: "negate l \<noteq> l"
proof
  assume "negate l = l"
  then have "length (negate l) = length l" by simp
  then show False by (cases l) (auto simp: negate_def split: if_splits)
qed

lemma negate_negate: "well_formed l \<Longrightarrow> negate (negate l) = l"
  by (cases l) (auto simp: well_formed_def ident_def negate_def)

lemma ident_negate: "well_formed l \<Longrightarrow> ident (negate l) = ident l"
  by (cases l) (auto simp: well_formed_def ident_def negate_def)

lemma negated_negate: "well_formed l \<Longrightarrow> negated (negate l) = (\<not> negated l)"
  by (cases l) (auto simp: well_formed_def ident_def negate_def negated_def)

lemma well_formed_negate: "well_formed l \<Longrightarrow> well_formed (negate l)"
  by (cases l) (auto simp: well_formed_def ident_def negate_def)

lemma same_ident: "ident l = ident k \<Longrightarrow> l = k \<or> l = negate k"
  by (cases l; cases k) (auto simp: ident_def negate_def split: if_splits)

text \<open>
  C8 (as amended). \<open>negate\<close> is total, being a HOL function with no partial operation
  in it. On every well-formed literal it is its own inverse, and the negated literal has
  the same identifier and the opposite polarity.
\<close>

theorem negate_involution:
  "well_formed l \<Longrightarrow>
     negate (negate l) = l \<and> ident (negate l) = ident l \<and> negated (negate l) = (\<not> negated l)"
  by (simp add: negate_negate ident_negate negated_negate)

theorem negate_involution_witness:
  "well_formed (neg_mark # py ''A'') \<and> negate (negate (neg_mark # py ''A'')) = neg_mark # py ''A''
     \<and> ident (negate (neg_mark # py ''A'')) = ident (neg_mark # py ''A'')
     \<and> negated (negate (neg_mark # py ''A'')) = (\<not> negated (neg_mark # py ''A''))"
proof -
  have wf: "well_formed (neg_mark # py ''A'')"
    by (simp add: well_formed_def ident_def)
  show ?thesis using wf negate_involution [OF wf] by simp
qed

text \<open>
  C8 as stated fails on a literal with two marks in front: negating twice strips both
  marks, the identifier changes and the polarity does not.
\<close>

theorem negate_twice_counterexample:
  "negate (negate (neg_mark # neg_mark # py ''A'')) \<noteq> neg_mark # neg_mark # py ''A''
   \<and> ident (negate (neg_mark # neg_mark # py ''A'')) \<noteq> ident (neg_mark # neg_mark # py ''A'')
   \<and> negated (negate (neg_mark # neg_mark # py ''A'')) = negated (neg_mark # neg_mark # py ''A'')"
  by (simp add: negate_def ident_def negated_def)

subsection \<open>Pure literals\<close>

lemma mem_find_pure_literals:
  "l \<in> find_pure_literals cnf \<longleftrightarrow>
     (if startswith_neg l then l \<in> \<Union> cnf \<and> \<not> (tl l \<in> \<Union> cnf \<and> \<not> startswith_neg (tl l))
      else l \<in> \<Union> cnf \<and> neg_mark # l \<notin> \<Union> cnf)"
  apply (cases l)
  apply (auto simp: find_pure_literals_def Let_def image_iff startswith_neg_iff)
  done

text \<open>
  C7. On a formula whose literals are well formed, \<open>find_pure_literals\<close> returns exactly
  the literals that occur in some clause and whose negation occurs in no clause.
\<close>

theorem find_pure_literals_spec:
  "well_formed_cnf cnf \<Longrightarrow> find_pure_literals cnf = {l \<in> \<Union> cnf. negate l \<notin> \<Union> cnf}"
proof -
  assume wf: "well_formed_cnf cnf"
  have "l \<in> find_pure_literals cnf \<longleftrightarrow> l \<in> \<Union> cnf \<and> negate l \<notin> \<Union> cnf" for l
  proof (cases "l \<in> \<Union> cnf")
    case True
    then have "well_formed l" using wf by (auto simp: well_formed_cnf_def)
    then show ?thesis using True
      by (cases l) (auto simp: mem_find_pure_literals well_formed_def ident_def negate_def)
  next
    case False
    then show ?thesis by (simp add: mem_find_pure_literals)
  qed
  then show ?thesis by blast
qed

theorem find_pure_literals_spec_witness:
  "well_formed_cnf {{py ''A'', py ''B''}, {neg_mark # py ''A''}} \<and>
   find_pure_literals {{py ''A'', py ''B''}, {neg_mark # py ''A''}} =
     {l \<in> \<Union> {{py ''A'', py ''B''}, {neg_mark # py ''A''}}.
        negate l \<notin> \<Union> {{py ''A'', py ''B''}, {neg_mark # py ''A''}}}
   \<and> find_pure_literals {{py ''A'', py ''B''}, {neg_mark # py ''A''}} = {py ''B''}"
proof -
  have wf: "well_formed_cnf {{py ''A'', py ''B''}, {neg_mark # py ''A''}}"
    by (simp add: well_formed_cnf_def well_formed_def ident_def)
  have "{l \<in> \<Union> {{py ''A'', py ''B''}, {neg_mark # py ''A''}}.
        negate l \<notin> \<Union> {{py ''A'', py ''B''}, {neg_mark # py ''A''}}} = {py ''B''}"
    by (auto simp: negate_def)
  then show ?thesis using wf find_pure_literals_spec [OF wf] by simp
qed

subsection \<open>Pure-literal and unit steps\<close>

lemma mem_unit_clauses: "l \<in> unit_clauses cnf \<longleftrightarrow> {l} \<in> cnf"
proof
  assume "l \<in> unit_clauses cnf"
  then obtain c where c: "c \<in> cnf" "card c = 1" "l = the_elem c"
    by (auto simp: unit_clauses_def)
  from c(2) obtain x where "c = {x}" by (auto simp: card_1_singleton_iff)
  with c show "{l} \<in> cnf" by simp
next
  assume "{l} \<in> cnf"
  then have "{l} \<in> {clause \<in> cnf. card clause = 1}" by simp
  then have "the_elem {l} \<in> unit_clauses cnf" unfolding unit_clauses_def by (rule imageI)
  then show "l \<in> unit_clauses cnf" by simp
qed

lemma find_pure_literals_occur: "l \<in> find_pure_literals cnf \<Longrightarrow> l \<in> \<Union> cnf"
  by (simp add: mem_find_pure_literals split: if_splits)

lemma remove_pure_subset: "remove_pure cnf P \<subseteq> cnf"
  by (auto simp: remove_pure_def)

lemma remove_pure_psubset:
  assumes "find_pure_literals cnf \<noteq> {}"
  shows "remove_pure cnf (find_pure_literals cnf) \<subset> cnf"
proof -
  from assms obtain l where l: "l \<in> find_pure_literals cnf" by blast
  then obtain c where c: "c \<in> cnf" "l \<in> c" using find_pure_literals_occur by blast
  with l have "c \<notin> remove_pure cnf (find_pure_literals cnf)" by (auto simp: remove_pure_def)
  with c(1) show ?thesis using remove_pure_subset by blast
qed

lemma card_remove_pure:
  "finite cnf \<Longrightarrow> find_pure_literals cnf \<noteq> {} \<Longrightarrow>
     card (remove_pure cnf (find_pure_literals cnf)) < card cnf"
  by (simp add: psubset_card_mono remove_pure_psubset)

lemma card_unit_propagate:
  assumes fin: "finite cnf" and units: "unit_clauses cnf \<noteq> {}"
  shows "card (unit_propagate cnf (unit_clauses cnf)) < card cnf"
proof -
  let ?S = "{clause \<in> cnf. clause \<inter> unit_clauses cnf = {}}"
  from units obtain l where l: "{l} \<in> cnf" by (auto simp: mem_unit_clauses)
  then have "{l} \<notin> ?S" by (simp add: mem_unit_clauses)
  with l have "?S \<subset> cnf" by blast
  then have "card ?S < card cnf" using fin by (rule psubset_card_mono[rotated])
  moreover have "card (unit_propagate cnf (unit_clauses cnf)) \<le> card ?S"
    unfolding unit_propagate_def using fin by (intro card_image_le) simp
  ultimately show ?thesis by simp
qed

lemma finite_unit_propagate: "finite cnf \<Longrightarrow> finite (unit_propagate cnf U)"
  by (simp add: unit_propagate_def)

lemma finite_remove_pure: "finite cnf \<Longrightarrow> finite (remove_pure cnf P)"
  by (simp add: remove_pure_def)

lemma empty_clause_remove_pure: "{} \<in> cnf \<Longrightarrow> {} \<in> remove_pure cnf P"
  by (simp add: remove_pure_def)

lemma empty_clause_unit_propagate: "{} \<in> cnf \<Longrightarrow> {} \<in> unit_propagate cnf U"
  by (force simp: unit_propagate_def image_iff)

subsection \<open>One iteration\<close>

lemma iteration_Continue:
  assumes "iteration pick cnf = Continue cnf'"
  shows "(find_pure_literals cnf \<noteq> {} \<and> cnf' = remove_pure cnf (find_pure_literals cnf))
       \<or> (find_pure_literals cnf = {} \<and> unit_clauses cnf \<noteq> {} \<and> cnf' = unit_propagate cnf (unit_clauses cnf))
       \<or> (elimination_runs cnf \<and> cnf' = eliminate cnf (pick cnf))"
  using assms by (auto simp: iteration_def Let_def elimination_runs_def split: if_splits)

lemma iteration_eliminate:
  "elimination_runs cnf \<Longrightarrow> iteration pick cnf = Continue (eliminate cnf (pick cnf))"
  by (simp add: iteration_def elimination_runs_def)

lemma iteration_Return:
  assumes "iteration pick cnf = Return verdict"
  shows "find_pure_literals cnf = {} \<and> unit_clauses cnf = {} \<and> verdict = ({} \<notin> cnf) \<and> (verdict \<longrightarrow> cnf = {})"
  using assms by (auto simp: iteration_def Let_def split: if_splits)

lemma iteration_empty_clause:
  assumes "{} \<in> cnf" "finite cnf"
  shows "iteration pick cnf = Return False
       \<or> (\<exists>cnf'. iteration pick cnf = Continue cnf' \<and> {} \<in> cnf' \<and> finite cnf' \<and> card cnf' < card cnf)"
  using assms
  by (auto simp: iteration_def Let_def empty_clause_remove_pure empty_clause_unit_propagate
        finite_unit_propagate finite_remove_pure card_remove_pure card_unit_propagate)

subsection \<open>The loop\<close>

lemma loop_empty_clause:
  "{} \<in> cnf \<Longrightarrow> finite cnf \<Longrightarrow>
     fst (loop pick cnf steps max_steps) \<noteq> Some True \<and>
     (steps + int (card cnf) \<le> max_steps \<longrightarrow> fst (loop pick cnf steps max_steps) = Some False)"
proof (induction pick cnf steps max_steps rule: loop.induct)
  case (1 pick cnf steps max_steps)
  show ?case
  proof (cases "steps \<ge> max_steps")
    case True
    moreover have "card cnf > 0" using "1.prems" by (auto simp: card_gt_0_iff)
    ultimately show ?thesis by (subst (1 2) loop.simps) simp
  next
    case False
    from iteration_empty_clause[OF "1.prems", of pick] show ?thesis
    proof
      assume "iteration pick cnf = Return False"
      with False show ?thesis by (subst (1 2) loop.simps) simp
    next
      assume "\<exists>cnf'. iteration pick cnf = Continue cnf' \<and> {} \<in> cnf' \<and> finite cnf' \<and> card cnf' < card cnf"
      then obtain cnf' where it: "iteration pick cnf = Continue cnf'" and e: "{} \<in> cnf'"
        and f: "finite cnf'" and c: "card cnf' < card cnf" by blast
      have IH: "fst (loop pick cnf' (steps + 1) max_steps) \<noteq> Some True \<and>
        (steps + 1 + int (card cnf') \<le> max_steps \<longrightarrow> fst (loop pick cnf' (steps + 1) max_steps) = Some False)"
        using "1.IH"[OF False it e f] .
      have eq: "loop pick cnf steps max_steps = loop pick cnf' (steps + 1) max_steps"
        using False it by (subst loop.simps) simp
      show ?thesis unfolding eq using IH c by auto
    qed
  qed
qed

lemma loop_steps:
  "steps \<le> max_steps \<Longrightarrow>
     steps \<le> snd (loop pick cnf steps max_steps) \<and> snd (loop pick cnf steps max_steps) \<le> max_steps"
proof (induction pick cnf steps max_steps rule: loop.induct)
  case (1 pick cnf steps max_steps)
  show ?case
  proof (cases "steps \<ge> max_steps")
    case True
    with "1.prems" show ?thesis by (subst (1 2) loop.simps) simp
  next
    case False
    show ?thesis
    proof (cases "iteration pick cnf")
      case (Return verdict)
      with False show ?thesis by (subst (1 2) loop.simps) simp
    next
      case (Continue cnf')
      have eq: "loop pick cnf steps max_steps = loop pick cnf' (steps + 1) max_steps"
        using False Continue by (subst loop.simps) simp
      from False have "steps + 1 \<le> max_steps" by simp
      from "1.IH"[OF False Continue this] show ?thesis unfolding eq by simp
    qed
  qed
qed

lemma iteration_empty_cnf: "iteration pick {} = Return True"
  by (simp add: iteration_def find_pure_literals_def unit_clauses_def)

lemma loop_formulas:
  "snd (loop pick cnf steps max_steps) = steps + int (length (formulas pick cnf steps max_steps)) - 1"
proof (induction pick cnf steps max_steps rule: loop.induct)
  case (1 pick cnf steps max_steps)
  show ?case
  proof (cases "steps \<ge> max_steps")
    case True
    then show ?thesis by (subst loop.simps, subst formulas.simps) simp
  next
    case False
    show ?thesis
    proof (cases "iteration pick cnf")
      case (Return verdict)
      with False show ?thesis by (subst loop.simps, subst formulas.simps) simp
    next
      case (Continue cnf')
      with False "1.IH"[OF False Continue] show ?thesis
        by (subst loop.simps, subst formulas.simps) simp
    qed
  qed
qed

lemma iteration_subsets:
  assumes "iteration pick cnf = Continue cnf'" "c \<in> cnf'"
  shows "\<exists>c0 \<in> cnf. c \<subseteq> c0"
  using iteration_Continue[OF assms(1)] assms(2)
  by (auto simp: remove_pure_def unit_propagate_def eliminate_def resolve_literal_def)

lemma formulas_subsets:
  "F \<in> set (formulas pick cnf steps max_steps) \<Longrightarrow> c \<in> F \<Longrightarrow> \<exists>c0 \<in> cnf. c \<subseteq> c0"
proof (induction pick cnf steps max_steps rule: formulas.induct)
  case (1 pick cnf steps max_steps)
  from "1.prems"(1) have "F = cnf \<or>
      (\<not> steps \<ge> max_steps \<and> (\<exists>cnf'. iteration pick cnf = Continue cnf'
          \<and> F \<in> set (formulas pick cnf' (steps + 1) max_steps)))"
    by (subst (asm) formulas.simps) (auto split: if_splits outcome.splits)
  then show ?case
  proof
    assume "F = cnf"
    with "1.prems"(2) show ?thesis by blast
  next
    assume "\<not> steps \<ge> max_steps \<and> (\<exists>cnf'. iteration pick cnf = Continue cnf'
          \<and> F \<in> set (formulas pick cnf' (steps + 1) max_steps))"
    then obtain cnf' where ns: "\<not> steps \<ge> max_steps" and it: "iteration pick cnf = Continue cnf'"
      and F: "F \<in> set (formulas pick cnf' (steps + 1) max_steps)" by blast
    from "1.IH"[OF ns it F "1.prems"(2)] obtain c1 where c1: "c1 \<in> cnf'" "c \<subseteq> c1" by blast
    from iteration_subsets[OF it c1(1)] obtain c0 where "c0 \<in> cnf" "c1 \<subseteq> c0" by blast
    with c1(2) show ?thesis by blast
  qed
qed

subsection \<open>Verdicts\<close>

text \<open>
  C1. The claim is that the formula of the two unit clauses \<open>A\<close> and its negation is
  reported unsatisfiable; the source lists it as its example \<^verbatim>\<open>Trivial UNSAT\<close>. The code
  returns \<^verbatim>\<open>True\<close>, satisfiable, whatever literal line 38 would choose: both literals are
  unit literals, \<^verbatim>\<open>unit_propagate\<close> skips both clauses because each meets the unit
  literals, and the formula left is empty.
\<close>

theorem trivial_contradiction_returns_sat:
  "davis_putnam pick {{py ''A''}, {neg_mark # py ''A''}} MAX_STEPS = Some True"
proof -
  let ?F = "{{py ''A''}, {neg_mark # py ''A''}}"
  have no_pure: "find_pure_literals ?F = {}" by code_simp
  have units: "unit_clauses ?F = {py ''A'', neg_mark # py ''A''}" by code_simp
  have propagated: "unit_propagate ?F {py ''A'', neg_mark # py ''A''} = {}" by code_simp
  have it: "iteration pick ?F = Continue {}"
    unfolding iteration_def no_pure units Let_def propagated by simp
  have "loop pick ?F 0 10000 = loop pick {} 1 10000"
    by (subst loop.simps) (use it in simp)
  also have "\<dots> = (Some True, 1)"
    by (subst loop.simps) (simp add: iteration_empty_cnf)
  finally show ?thesis by (simp add: davis_putnam_def MAX_STEPS_def)
qed

text \<open>
  C2 (as amended). On a formula that contains the empty clause the procedure never
  returns satisfiable, and it returns unsatisfiable whenever the step limit is at least
  the number of clauses of the formula.
\<close>

theorem empty_clause_never_sat:
  "{} \<in> cnf \<Longrightarrow> finite cnf \<Longrightarrow>
     davis_putnam pick cnf max_steps \<noteq> Some True \<and>
     (int (card cnf) \<le> max_steps \<longrightarrow> davis_putnam pick cnf max_steps = Some False)"
  using loop_empty_clause[of cnf pick 0 max_steps] by (simp add: davis_putnam_def)

theorem empty_clause_never_sat_witness:
  "{} \<in> {{}, {py ''A''}} \<and> finite {{}, {py ''A''}} \<and> int (card {{}, {py ''A''}}) \<le> 2 \<and>
   davis_putnam (\<lambda>_. []) {{}, {py ''A''}} 2 \<noteq> Some True \<and>
   davis_putnam (\<lambda>_. []) {{}, {py ''A''}} 2 = Some False"
proof -
  have h1: "{} \<in> {{}, {py ''A''}}" by simp
  have h2: "finite {{}, {py ''A''}}" by simp
  have h3: "int (card {{}, {py ''A''}}) \<le> 2" by simp
  show ?thesis using h1 h2 h3 empty_clause_never_sat [OF h1 h2, of "\<lambda>_. []" 2] by simp
qed

text \<open>
  C2 as stated fails when the step limit is reached first: with a limit of one, the
  pure-literal step on \<open>A\<close> uses the only step, and the result is \<^verbatim>\<open>None\<close>.
\<close>

theorem empty_clause_aborted_counterexample:
  "{} \<in> {{}, {py ''A''}} \<and> (0::int) < 1 \<and> davis_putnam (\<lambda>_. []) {{}, {py ''A''}} 1 = None"
  by code_simp

text \<open>
  C9. \<open>loop\<close> is a total function: its termination is proved, on the distance of
  \<^verbatim>\<open>steps\<close> from \<^verbatim>\<open>max_steps\<close>. For a positive limit the procedure returns one of the
  three verdicts, and the number of times it replaced the formula, which is the final
  value of \<^verbatim>\<open>steps\<close> and one less than the number of formulas visited, is at most the
  limit.
\<close>

theorem davis_putnam_total:
  "0 < max_steps \<Longrightarrow>
     \<exists>verdict steps. loop pick cnf 0 max_steps = (verdict, steps)
        \<and> davis_putnam pick cnf max_steps = verdict
        \<and> (verdict = Some True \<or> verdict = Some False \<or> verdict = None)
        \<and> steps = int (length (formulas pick cnf 0 max_steps)) - 1
        \<and> 0 \<le> steps \<and> steps \<le> max_steps"
proof -
  assume pos: "0 < max_steps"
  obtain verdict steps where eq: "loop pick cnf 0 max_steps = (verdict, steps)"
    by (cases "loop pick cnf 0 max_steps")
  have "0 \<le> snd (loop pick cnf 0 max_steps) \<and> snd (loop pick cnf 0 max_steps) \<le> max_steps"
    using pos by (intro loop_steps) simp
  moreover have "verdict = Some True \<or> verdict = Some False \<or> verdict = None"
    by (cases verdict) auto
  moreover have "snd (loop pick cnf 0 max_steps) = int (length (formulas pick cnf 0 max_steps)) - 1"
    by (simp add: loop_formulas)
  ultimately show ?thesis using eq by (simp add: davis_putnam_def)
qed

theorem davis_putnam_total_witness:
  "(0::int) < 10000 \<and>
   (\<exists>verdict steps. loop (\<lambda>_. py ''A'') {{py ''A'', neg_mark # py ''A''}} 0 10000 = (verdict, steps)
        \<and> davis_putnam (\<lambda>_. py ''A'') {{py ''A'', neg_mark # py ''A''}} 10000 = verdict
        \<and> (verdict = Some True \<or> verdict = Some False \<or> verdict = None)
        \<and> steps = int (length (formulas (\<lambda>_. py ''A'') {{py ''A'', neg_mark # py ''A''}} 0 10000)) - 1
        \<and> 0 \<le> steps \<and> steps \<le> 10000)"
proof -
  have h: "(0::int) < 10000" by simp
  show ?thesis using h davis_putnam_total [OF h, of "\<lambda>_. py ''A''" "{{py ''A'', neg_mark # py ''A''}}"]
    by simp
qed

text \<open>
  C10. Every clause of every formula the loop holds at the start of an iteration is a
  subset of some clause of the input formula.
\<close>

theorem working_clauses_subsets:
  "F \<in> set (formulas pick cnf 0 max_steps) \<Longrightarrow> c \<in> F \<Longrightarrow> \<exists>c0 \<in> cnf. c \<subseteq> c0"
  by (rule formulas_subsets)

theorem working_clauses_subsets_witness:
  "{{py ''B''}, {neg_mark # py ''B''}}
      \<in> set (formulas (\<lambda>_. py ''A'')
                 {{py ''A'', py ''B''}, {neg_mark # py ''A'', neg_mark # py ''B''}} 0 10000)
   \<and> {py ''B''} \<in> {{py ''B''}, {neg_mark # py ''B''}}
   \<and> (\<exists>c0 \<in> {{py ''A'', py ''B''}, {neg_mark # py ''A'', neg_mark # py ''B''}}. {py ''B''} \<subseteq> c0)"
proof -
  have h1: "{{py ''B''}, {neg_mark # py ''B''}}
      \<in> set (formulas (\<lambda>_. py ''A'')
                 {{py ''A'', py ''B''}, {neg_mark # py ''A'', neg_mark # py ''B''}} 0 10000)"
    by code_simp
  have h2: "{py ''B''} \<in> {{py ''B''}, {neg_mark # py ''B''}}" by simp
  show ?thesis using h1 h2 working_clauses_subsets [OF h1 h2] by simp
qed

subsection \<open>The literal-elimination step\<close>

lemma mem_eliminate:
  "c \<in> eliminate cnf lit \<longleftrightarrow>
     (\<exists>d \<in> cnf. lit \<in> d \<and> c = d - {lit}) \<or> (\<exists>d \<in> cnf. negate lit \<in> d \<and> c = d - {negate lit})"
  by (auto simp: eliminate_def resolve_literal_def)

text \<open>
  The largest clause of the formula is one literal larger than anything the step
  produces, so the step cannot give the formula back.
\<close>

lemma eliminate_differs:
  assumes fin: "finite_cnf cnf" and ne: "cnf \<noteq> {}"
  shows "eliminate cnf lit \<noteq> cnf"
proof
  assume eq: "eliminate cnf lit = cnf"
  from fin have f: "finite cnf" and fc: "\<And>c. c \<in> cnf \<Longrightarrow> finite c"
    by (auto simp: finite_cnf_def)
  from f ne have "Max (card ` cnf) \<in> card ` cnf" by (intro Max_in) auto
  then obtain c1 where c1: "c1 \<in> cnf" "card c1 = Max (card ` cnf)" by auto
  from c1(1) eq have "c1 \<in> eliminate cnf lit" by simp
  then obtain d k where d: "d \<in> cnf" "k \<in> d" "c1 = d - {k}"
    by (auto simp: mem_eliminate)
  from d fc have "card c1 < card d" using card_Diff1_less[of d k] by blast
  moreover from d(1) f have "card d \<le> Max (card ` cnf)" by (intro Max_ge) auto
  ultimately show False using c1(2) by simp
qed

lemma eliminate_no_ident:
  assumes notaut: "no_tautology_on cnf lit"
    and c: "c \<in> eliminate cnf lit" and l: "l \<in> c"
  shows "ident l \<noteq> ident lit"
proof
  assume "ident l = ident lit"
  then have "l = lit \<or> l = negate lit" by (rule same_ident)
  moreover from c l notaut have "l \<noteq> lit" "l \<noteq> negate lit"
    by (auto simp: mem_eliminate no_tautology_on_def)
  ultimately show False by blast
qed

text \<open>
  C3 (as amended). Whenever the literal-elimination step runs, the formula it produces
  differs from the input formula; and when no clause of the input holds both the chosen
  literal and its negation, no literal of the result has the identifier of the chosen
  literal, in either polarity.
\<close>

theorem elimination_changes_formula:
  assumes "elimination_runs cnf" and "finite_cnf cnf"
  shows "\<exists>cnf'. iteration pick cnf = Continue cnf' \<and> cnf' \<noteq> cnf \<and>
           (no_tautology_on cnf (pick cnf) \<longrightarrow>
              (\<forall>c \<in> cnf'. \<forall>l \<in> c. ident l \<noteq> ident (pick cnf)))"
proof (intro exI conjI impI ballI)
  show "iteration pick cnf = Continue (eliminate cnf (pick cnf))"
    using assms(1) by (rule iteration_eliminate)
  from assms(1) have "cnf \<noteq> {}" by (simp add: elimination_runs_def)
  with assms(2) show "eliminate cnf (pick cnf) \<noteq> cnf" by (rule eliminate_differs)
next
  fix c l
  assume "no_tautology_on cnf (pick cnf)"
    and "c \<in> eliminate cnf (pick cnf)" and "l \<in> c"
  then show "ident l \<noteq> ident (pick cnf)" by (rule eliminate_no_ident)
qed

theorem elimination_changes_formula_witness:
  "elimination_runs {{py ''A'', py ''B''}, {neg_mark # py ''A'', neg_mark # py ''B''}}
   \<and> finite_cnf {{py ''A'', py ''B''}, {neg_mark # py ''A'', neg_mark # py ''B''}}
   \<and> no_tautology_on {{py ''A'', py ''B''}, {neg_mark # py ''A'', neg_mark # py ''B''}} (py ''A'')
   \<and> (\<exists>cnf'. iteration (\<lambda>_. py ''A'') {{py ''A'', py ''B''}, {neg_mark # py ''A'', neg_mark # py ''B''}}
                  = Continue cnf'
          \<and> cnf' \<noteq> {{py ''A'', py ''B''}, {neg_mark # py ''A'', neg_mark # py ''B''}}
          \<and> (\<forall>c \<in> cnf'. \<forall>l \<in> c. ident l \<noteq> ident (py ''A'')))"
proof -
  let ?F = "{{py ''A'', py ''B''}, {neg_mark # py ''A'', neg_mark # py ''B''}}"
  have h1: "elimination_runs ?F" by code_simp
  have h2: "finite_cnf ?F" by (simp add: finite_cnf_def)
  have h3: "no_tautology_on ?F (py ''A'')" by code_simp
  show ?thesis using h1 h2 h3 elimination_changes_formula [OF h1 h2, of "\<lambda>_. py ''A''"] by simp
qed

text \<open>
  C3 as stated fails on a clause that holds a literal and its negation: removing \<open>A\<close>
  from it leaves the negation of \<open>A\<close>, and removing the negation leaves \<open>A\<close>, so the
  identifier of the chosen literal still occurs in the result.
\<close>

theorem elimination_keeps_identifier_counterexample:
  "elimination_runs {{py ''A'', neg_mark # py ''A''}}
   \<and> picks_from (\<lambda>_. py ''A'') {{py ''A'', neg_mark # py ''A''}}
   \<and> iteration (\<lambda>_. py ''A'') {{py ''A'', neg_mark # py ''A''}} = Continue {{neg_mark # py ''A''}, {py ''A''}}
   \<and> py ''A'' \<in> {py ''A''}
   \<and> ident (py ''A'') = ident ((\<lambda>_. py ''A'') {{py ''A'', neg_mark # py ''A''}})"
  by code_simp

lemma ex_iff_absent:
  assumes "\<exists>x. P x \<and> (Q x \<longleftrightarrow> R1 \<or> R2)" and "\<not> R1" and "\<not> R2"
  shows "\<exists>x. P x \<and> \<not> Q x"
  using assms by blast

lemma mem_eliminate_neither:
  assumes "lit \<notin> c" and "negate lit \<notin> c"
  shows "c \<in> eliminate cnf lit \<longleftrightarrow> insert lit c \<in> cnf \<or> insert (negate lit) c \<in> cnf"
proof
  assume "c \<in> eliminate cnf lit"
  then consider d where "d \<in> cnf" "lit \<in> d" "c = d - {lit}"
    | d where "d \<in> cnf" "negate lit \<in> d" "c = d - {negate lit}"
    unfolding mem_eliminate by blast
  then show "insert lit c \<in> cnf \<or> insert (negate lit) c \<in> cnf"
  proof cases
    case 1
    then have "insert lit c = d" by blast
    with 1(1) show ?thesis by simp
  next
    case 2
    then have "insert (negate lit) c = d" by blast
    with 2(1) show ?thesis by simp
  qed
next
  assume "insert lit c \<in> cnf \<or> insert (negate lit) c \<in> cnf"
  then show "c \<in> eliminate cnf lit"
  proof
    assume a: "insert lit c \<in> cnf"
    have "c = insert lit c - {lit}" using assms(1) by simp
    then have "\<exists>d \<in> cnf. lit \<in> d \<and> c = d - {lit}"
      using a by (intro bexI[of _ "insert lit c"]) auto
    then show ?thesis by (simp add: mem_eliminate)
  next
    assume a: "insert (negate lit) c \<in> cnf"
    have "c = insert (negate lit) c - {negate lit}" using assms(2) by simp
    then have "\<exists>d \<in> cnf. negate lit \<in> d \<and> c = d - {negate lit}"
      using a by (intro bexI[of _ "insert (negate lit) c"]) auto
    then show ?thesis by (simp add: mem_eliminate)
  qed
qed

text \<open>
  C5 (as amended). When the literal-elimination step runs with chosen literal \<open>l\<close>, a
  clause of the input that holds neither \<open>l\<close> nor its negation is in the result exactly
  when the input also holds that clause with \<open>l\<close> added, or with the negation of \<open>l\<close>
  added; in every other case the clause is dropped.
\<close>

theorem elimination_carries_clause:
  assumes "elimination_runs cnf" and "c \<in> cnf" and "pick cnf \<notin> c" and "negate (pick cnf) \<notin> c"
  shows "\<exists>cnf'. iteration pick cnf = Continue cnf' \<and>
           (c \<in> cnf' \<longleftrightarrow> insert (pick cnf) c \<in> cnf \<or> insert (negate (pick cnf)) c \<in> cnf)"
proof (intro exI conjI)
  show "iteration pick cnf = Continue (eliminate cnf (pick cnf))"
    using assms(1) by (rule iteration_eliminate)
  show "c \<in> eliminate cnf (pick cnf) \<longleftrightarrow>
          insert (pick cnf) c \<in> cnf \<or> insert (negate (pick cnf)) c \<in> cnf"
    using assms(3,4) by (rule mem_eliminate_neither)
qed

theorem elimination_carries_clause_witness:
  "elimination_runs {{py ''A'', py ''B''}, {neg_mark # py ''A'', neg_mark # py ''B''},
                     {py ''B'', neg_mark # py ''B''}}
   \<and> {py ''B'', neg_mark # py ''B''} \<in> {{py ''A'', py ''B''}, {neg_mark # py ''A'', neg_mark # py ''B''},
                     {py ''B'', neg_mark # py ''B''}}
   \<and> py ''A'' \<notin> {py ''B'', neg_mark # py ''B''}
   \<and> negate (py ''A'') \<notin> {py ''B'', neg_mark # py ''B''}
   \<and> (\<exists>cnf'. iteration (\<lambda>_. py ''A'') {{py ''A'', py ''B''}, {neg_mark # py ''A'', neg_mark # py ''B''},
                     {py ''B'', neg_mark # py ''B''}} = Continue cnf'
          \<and> {py ''B'', neg_mark # py ''B''} \<notin> cnf')"
proof -
  let ?F = "{{py ''A'', py ''B''}, {neg_mark # py ''A'', neg_mark # py ''B''},
             {py ''B'', neg_mark # py ''B''}}"
  let ?c = "{py ''B'', neg_mark # py ''B''}"
  have h1: "elimination_runs ?F" by code_simp
  have h2: "?c \<in> ?F" by code_simp
  have h3: "py ''A'' \<notin> ?c" by code_simp
  have h4: "negate (py ''A'') \<notin> ?c" by code_simp
  have n1: "\<not> insert (py ''A'') ?c \<in> ?F" by code_simp
  have n2: "\<not> insert (negate (py ''A'')) ?c \<in> ?F" by code_simp
  have "\<exists>cnf'. iteration (\<lambda>_. py ''A'') ?F = Continue cnf' \<and> ?c \<notin> cnf'"
    by (rule ex_iff_absent [OF elimination_carries_clause [of ?F ?c "\<lambda>_. py ''A''", OF h1 h2 h3 h4] n1 n2])
  with h1 h2 h3 h4 show ?thesis by (intro conjI)
qed

text \<open>
  C5 as stated fails when the clause is also what the step makes of another clause:
  here \<open>{B, C}\<close> holds neither \<open>A\<close> nor its negation, and it is in the result because
  \<open>{A, B, C}\<close> is in the input.
\<close>

theorem elimination_carries_clause_counterexample:
  "elimination_runs {{py ''A'', py ''B'', py ''C''}, {py ''B'', py ''C''},
                     {neg_mark # py ''A'', neg_mark # py ''B'', neg_mark # py ''C''},
                     {neg_mark # py ''B'', neg_mark # py ''C''}}
   \<and> picks_from (\<lambda>_. py ''A'') {{py ''A'', py ''B'', py ''C''}, {py ''B'', py ''C''},
                     {neg_mark # py ''A'', neg_mark # py ''B'', neg_mark # py ''C''},
                     {neg_mark # py ''B'', neg_mark # py ''C''}}
   \<and> {py ''B'', py ''C''} \<in> {{py ''A'', py ''B'', py ''C''}, {py ''B'', py ''C''},
                     {neg_mark # py ''A'', neg_mark # py ''B'', neg_mark # py ''C''},
                     {neg_mark # py ''B'', neg_mark # py ''C''}}
   \<and> py ''A'' \<notin> {py ''B'', py ''C''}
   \<and> negate (py ''A'') \<notin> {py ''B'', py ''C''}
   \<and> iteration (\<lambda>_. py ''A'') {{py ''A'', py ''B'', py ''C''}, {py ''B'', py ''C''},
                     {neg_mark # py ''A'', neg_mark # py ''B'', neg_mark # py ''C''},
                     {neg_mark # py ''B'', neg_mark # py ''C''}}
        = Continue {{py ''B'', py ''C''}, {neg_mark # py ''B'', neg_mark # py ''C''}}
   \<and> {py ''B'', py ''C''} \<in> {{py ''B'', py ''C''}, {neg_mark # py ''B'', neg_mark # py ''C''}}"
  by code_simp

subsection \<open>Shrinkage\<close>

lemma eliminate_image:
  assumes notaut: "no_tautology_on cnf lit"
  shows "eliminate cnf lit =
     (\<lambda>c. if lit \<in> c then c - {lit} else c - {negate lit}) ` {c \<in> cnf. lit \<in> c \<or> negate lit \<in> c}"
    (is "_ = ?g ` ?S")
proof (rule set_eqI)
  fix c
  show "c \<in> eliminate cnf lit \<longleftrightarrow> c \<in> ?g ` ?S"
  proof
    assume "c \<in> eliminate cnf lit"
    then consider d where "d \<in> cnf" "lit \<in> d" "c = d - {lit}"
      | d where "d \<in> cnf" "negate lit \<in> d" "c = d - {negate lit}"
      unfolding mem_eliminate by blast
    then show "c \<in> ?g ` ?S"
    proof cases
      case 1
      then have "d \<in> ?S" "c = ?g d" by simp_all
      then show ?thesis by (rule rev_image_eqI)
    next
      case 2
      with notaut have "lit \<notin> d" by (auto simp: no_tautology_on_def)
      with 2 have "d \<in> ?S" "c = ?g d" by simp_all
      then show ?thesis by (rule rev_image_eqI)
    qed
  next
    assume "c \<in> ?g ` ?S"
    then obtain d where d: "d \<in> ?S" "c = ?g d" by (rule imageE)
    show "c \<in> eliminate cnf lit"
    proof (cases "lit \<in> d")
      case True
      with d have "d \<in> cnf" "c = d - {lit}" by simp_all
      with True show ?thesis unfolding mem_eliminate by blast
    next
      case False
      with d have "d \<in> cnf" "negate lit \<in> d" "c = d - {negate lit}" by simp_all
      then show ?thesis unfolding mem_eliminate by blast
    qed
  qed
qed

lemma eliminate_shrinks:
  assumes fin: "finite_cnf cnf" and ne: "cnf \<noteq> {}"
    and notaut: "no_tautology_on cnf lit"
  shows "card (eliminate cnf lit) < card cnf
       \<or> (\<Sum>c \<in> eliminate cnf lit. card c) < (\<Sum>c \<in> cnf. card c)"
proof -
  let ?g = "\<lambda>c. if lit \<in> c then c - {lit} else c - {negate lit}"
  let ?S = "{c \<in> cnf. lit \<in> c \<or> negate lit \<in> c}"
  from fin have f: "finite cnf" and fc: "\<And>c. c \<in> cnf \<Longrightarrow> finite c"
    by (auto simp: finite_cnf_def)
  have img: "eliminate cnf lit = ?g ` ?S" using notaut by (rule eliminate_image)
  have fS: "finite ?S" using f by simp
  show ?thesis
  proof (cases "?S = {}")
    case True
    with img have "eliminate cnf lit = {}" by simp
    moreover from f ne have "0 < card cnf" by (simp add: card_gt_0_iff)
    ultimately show ?thesis by simp
  next
    case False
    have less: "card (?g c) < card c" if "c \<in> ?S" for c
    proof -
      from that have fin_c: "finite c" using fc by simp
      show ?thesis
      proof (cases "lit \<in> c")
        case True
        with fin_c show ?thesis using card_Diff1_less[of c lit] by simp
      next
        case False
        with that have "negate lit \<in> c" by simp
        with fin_c False show ?thesis using card_Diff1_less[of c "negate lit"] by simp
      qed
    qed
    have "(\<Sum>c \<in> ?g ` ?S. card c) \<le> (\<Sum>c \<in> ?S. (card \<circ> ?g) c)"
      using fS by (intro sum_image_le) simp_all
    also have "\<dots> < (\<Sum>c \<in> ?S. card c)"
      using fS False less by (intro sum_strict_mono) simp_all
    also have "\<dots> \<le> (\<Sum>c \<in> cnf. card c)"
      using f by (intro sum_mono2) auto
    finally show ?thesis using img by simp
  qed
qed

text \<open>
  C4 (as amended). An iteration that replaces the formula leaves strictly fewer clauses
  or strictly fewer literal occurrences, provided that, when it is the
  literal-elimination step that runs, no clause holds both the chosen literal and its
  negation. The pure-literal and the unit step always leave strictly fewer clauses.
\<close>

theorem iteration_shrinks:
  assumes "finite_cnf cnf" and "iteration pick cnf = Continue cnf'"
    and "elimination_runs cnf \<longrightarrow> no_tautology_on cnf (pick cnf)"
  shows "clause_count cnf' < clause_count cnf \<or> literal_occurrences cnf' < literal_occurrences cnf"
proof -
  from assms(1) have f: "finite cnf" by (simp add: finite_cnf_def)
  from iteration_Continue[OF assms(2)] consider
      "find_pure_literals cnf \<noteq> {}" "cnf' = remove_pure cnf (find_pure_literals cnf)"
    | "unit_clauses cnf \<noteq> {}" "cnf' = unit_propagate cnf (unit_clauses cnf)"
    | "elimination_runs cnf" "cnf' = eliminate cnf (pick cnf)"
    by blast
  then show ?thesis
  proof cases
    case 1
    with f show ?thesis by (simp add: clause_count_def card_remove_pure)
  next
    case 2
    with f show ?thesis by (simp add: clause_count_def card_unit_propagate)
  next
    case 3
    from 3(1) have "cnf \<noteq> {}" by (simp add: elimination_runs_def)
    moreover from 3(1) assms(3) have "no_tautology_on cnf (pick cnf)" by simp
    ultimately show ?thesis
      using eliminate_shrinks[OF assms(1), of "pick cnf"] 3(2)
      by (simp add: clause_count_def literal_occurrences_def)
  qed
qed

theorem iteration_shrinks_witness:
  "finite_cnf {{py ''A'', py ''B''}, {neg_mark # py ''A'', neg_mark # py ''B''}}
   \<and> iteration (\<lambda>_. py ''A'') {{py ''A'', py ''B''}, {neg_mark # py ''A'', neg_mark # py ''B''}}
        = Continue {{py ''B''}, {neg_mark # py ''B''}}
   \<and> elimination_runs {{py ''A'', py ''B''}, {neg_mark # py ''A'', neg_mark # py ''B''}}
   \<and> no_tautology_on {{py ''A'', py ''B''}, {neg_mark # py ''A'', neg_mark # py ''B''}} (py ''A'')
   \<and> (clause_count {{py ''B''}, {neg_mark # py ''B''}}
          < clause_count {{py ''A'', py ''B''}, {neg_mark # py ''A'', neg_mark # py ''B''}}
        \<or> literal_occurrences {{py ''B''}, {neg_mark # py ''B''}}
          < literal_occurrences {{py ''A'', py ''B''}, {neg_mark # py ''A'', neg_mark # py ''B''}})"
proof -
  let ?F = "{{py ''A'', py ''B''}, {neg_mark # py ''A'', neg_mark # py ''B''}}"
  let ?F' = "{{py ''B''}, {neg_mark # py ''B''}}"
  have h1: "finite_cnf ?F" by (simp add: finite_cnf_def)
  have h2: "iteration (\<lambda>_. py ''A'') ?F = Continue ?F'" by code_simp
  have e: "elimination_runs ?F" by code_simp
  have t: "no_tautology_on ?F (py ''A'')" by code_simp
  have h3: "elimination_runs ?F \<longrightarrow> no_tautology_on ?F ((\<lambda>_. py ''A'') ?F)"
    using t by (intro impI)
  have "clause_count ?F' < clause_count ?F \<or> literal_occurrences ?F' < literal_occurrences ?F"
    by (rule iteration_shrinks [OF h1 h2 h3])
  with h1 h2 e t show ?thesis by (intro conjI)
qed

text \<open>
  C4 as stated fails on a clause that holds a literal and its negation: the step turns
  the one clause of two literals into two clauses of one literal each, so neither the
  number of clauses nor the number of literal occurrences goes down.
\<close>

theorem iteration_grows_counterexample:
  "finite_cnf {{py ''A'', neg_mark # py ''A''}}
   \<and> picks_from (\<lambda>_. py ''A'') {{py ''A'', neg_mark # py ''A''}}
   \<and> iteration (\<lambda>_. py ''A'') {{py ''A'', neg_mark # py ''A''}} = Continue {{neg_mark # py ''A''}, {py ''A''}}
   \<and> \<not> clause_count {{neg_mark # py ''A''}, {py ''A''}} < clause_count {{py ''A'', neg_mark # py ''A''}}
   \<and> \<not> literal_occurrences {{neg_mark # py ''A''}, {py ''A''}} < literal_occurrences {{py ''A'', neg_mark # py ''A''}}"
proof -
  have h1: "finite_cnf {{py ''A'', neg_mark # py ''A''}}"
    by (simp add: finite_cnf_def)
  have h2: "picks_from (\<lambda>_. py ''A'') {{py ''A'', neg_mark # py ''A''}}" by code_simp
  have h3: "iteration (\<lambda>_. py ''A'') {{py ''A'', neg_mark # py ''A''}} = Continue {{neg_mark # py ''A''}, {py ''A''}}"
    by code_simp
  have h4: "\<not> clause_count {{neg_mark # py ''A''}, {py ''A''}} < clause_count {{py ''A'', neg_mark # py ''A''}}"
    by code_simp
  have h5: "\<not> literal_occurrences {{neg_mark # py ''A''}, {py ''A''}} < literal_occurrences {{py ''A'', neg_mark # py ''A''}}"
    by code_simp
  from h1 h2 h3 h4 h5 show ?thesis by (intro conjI)
qed

subsection \<open>Unit propagation and truth assignments\<close>

lemma lit_true_negate: "well_formed l \<Longrightarrow> lit_true \<sigma> (negate l) = (\<not> lit_true \<sigma> l)"
  by (simp add: lit_true_def ident_negate negated_negate)

lemma unit_propagate_sound:
  assumes wf: "well_formed_cnf cnf" and U: "\<forall>u \<in> U. lit_true \<sigma> u"
  shows "cnf_true \<sigma> (unit_propagate cnf U) \<longleftrightarrow> cnf_true \<sigma> cnf"
proof
  assume a: "cnf_true \<sigma> (unit_propagate cnf U)"
  show "cnf_true \<sigma> cnf"
    unfolding cnf_true_def
  proof
    fix c assume c: "c \<in> cnf"
    show "clause_true \<sigma> c"
    proof (cases "c \<inter> U = {}")
      case True
      with c have "{lit \<in> c. negate lit \<notin> U} \<in> unit_propagate cnf U"
        by (auto simp: unit_propagate_def)
      with a have "clause_true \<sigma> {lit \<in> c. negate lit \<notin> U}" by (simp add: cnf_true_def)
      then show ?thesis by (auto simp: clause_true_def)
    next
      case False
      then obtain u where "u \<in> c" "u \<in> U" by blast
      with U show ?thesis by (auto simp: clause_true_def)
    qed
  qed
next
  assume a: "cnf_true \<sigma> cnf"
  show "cnf_true \<sigma> (unit_propagate cnf U)"
    unfolding cnf_true_def
  proof
    fix c' assume "c' \<in> unit_propagate cnf U"
    then obtain c where c: "c \<in> cnf" "c' = {lit \<in> c. negate lit \<notin> U}"
      by (auto simp: unit_propagate_def)
    from a c(1) obtain l where l: "l \<in> c" "lit_true \<sigma> l"
      by (auto simp: cnf_true_def clause_true_def)
    from wf c(1) l(1) have "well_formed l" by (auto simp: well_formed_cnf_def)
    then have "\<not> lit_true \<sigma> (negate l)" using l(2) by (simp add: lit_true_negate)
    with U have "negate l \<notin> U" by blast
    with l c(2) show "clause_true \<sigma> c'" by (auto simp: clause_true_def)
  qed
qed

text \<open>
  C6 (as amended). For a formula whose literals are well formed, the formula returned by
  \<open>unit_propagate\<close> together with the unit literals is logically equivalent to the
  input formula together with the unit literals: an assignment that makes every unit
  literal true satisfies the one exactly when it satisfies the other.
\<close>

theorem unit_propagate_equivalent:
  assumes "well_formed_cnf cnf"
  shows "(cnf_true \<sigma> (unit_propagate cnf U) \<and> units_true \<sigma> U)
     \<longleftrightarrow> (cnf_true \<sigma> cnf \<and> units_true \<sigma> U)"
  using unit_propagate_sound[OF assms, of U \<sigma>] by (auto simp: units_true_def)

theorem unit_propagate_equivalent_witness:
  "well_formed_cnf {{py ''A''}, {neg_mark # py ''A'', py ''B''}}
   \<and> ((cnf_true (\<lambda>_. True) (unit_propagate {{py ''A''}, {neg_mark # py ''A'', py ''B''}} {py ''A''})
          \<and> units_true (\<lambda>_. True) {py ''A''})
        \<longleftrightarrow> (cnf_true (\<lambda>_. True) {{py ''A''}, {neg_mark # py ''A'', py ''B''}}
          \<and> units_true (\<lambda>_. True) {py ''A''}))
   \<and> unit_propagate {{py ''A''}, {neg_mark # py ''A'', py ''B''}} {py ''A''} = {{py ''B''}}
   \<and> cnf_true (\<lambda>_. True) {{py ''A''}, {neg_mark # py ''A'', py ''B''}}
   \<and> units_true (\<lambda>_. True) {py ''A''}"
proof -
  let ?F = "{{py ''A''}, {neg_mark # py ''A'', py ''B''}}"
  have h: "well_formed_cnf ?F" by code_simp
  have e: "(cnf_true (\<lambda>_. True) (unit_propagate ?F {py ''A''}) \<and> units_true (\<lambda>_. True) {py ''A''})
        \<longleftrightarrow> (cnf_true (\<lambda>_. True) ?F \<and> units_true (\<lambda>_. True) {py ''A''})"
    by (rule unit_propagate_equivalent [OF h])
  have p: "unit_propagate ?F {py ''A''} = {{py ''B''}}" by code_simp
  have t: "cnf_true (\<lambda>_. True) ?F" by code_simp
  have u: "units_true (\<lambda>_. True) {py ''A''}" by code_simp
  from h e p t u show ?thesis by (intro conjI)
qed

text \<open>
  C6 as stated fails because the formula returned no longer mentions the unit literals:
  propagating the unit \<open>A\<close> through the formula of the single clause \<open>{A}\<close> leaves the
  empty formula, which the assignment making \<open>A\<close> false satisfies, although that
  assignment satisfies neither the input formula nor the unit literal.
\<close>

theorem unit_propagate_not_equivalent_counterexample:
  "negate (py ''A'') \<notin> {py ''A''}
   \<and> cnf_true (\<lambda>_. False) (unit_propagate {{py ''A''}} {py ''A''})
   \<and> \<not> (cnf_true (\<lambda>_. False) {{py ''A''}} \<and> units_true (\<lambda>_. False) {py ''A''})"
  by code_simp

text \<open>
  Well-formedness cannot be dropped: the literal with two marks is not the complement of
  the literal with one mark, yet \<open>unit_propagate\<close> removes it as if it were.
\<close>

lemma unit_propagate_malformed_example:
  "units_true (\<lambda>_. False) {neg_mark # py ''A''}
   \<and> cnf_true (\<lambda>_. False) {{neg_mark # neg_mark # py ''A''}}
   \<and> \<not> cnf_true (\<lambda>_. False) (unit_propagate {{neg_mark # neg_mark # py ''A''}} {neg_mark # py ''A''})"
  by code_simp

end
